theory Spec2Isabelle
  imports Main "HOL-Library.Multiset"
begin

section \<open>Tic-tac-toe (Tutorial\_tic-tac-toe/tic-tac-toe/tic-tac-toe.js): data model\<close>

text \<open>
  A square holds \<open>null\<close>, \<open>"X"\<close> or \<open>"O"\<close>. The board is a JavaScript array of squares,
  the history an array of boards, the cursor \<open>currentMove\<close> a JavaScript number that
  the handlers only ever set to integers.
\<close>

datatype mark = MarkX | MarkO

text \<open>
  \<open>MarkX\<close> is the string \<open>"X"\<close>, \<open>MarkO\<close> the string \<open>"O"\<close>. \<open>None\<close> is the empty
  square: \<open>null\<close>, or \<open>undefined\<close> for a read past the end.
\<close>

type_synonym cell = "mark option"

type_synonym squares = "cell list"

text \<open>What a handler throws: a \<open>TypeError\<close> of the runtime, or \<open>Error(message)\<close>.\<close>

datatype error = TypeError | Error string

record game =
  history :: "squares list"
  currentMove :: int

text \<open>JavaScript truthiness of a square: \<open>null\<close> and \<open>undefined\<close> are falsy, a mark is truthy.\<close>

definition truthy :: "cell \<Rightarrow> bool" where
  "truthy v = (v \<noteq> None)"

text \<open>
  \<open>squares[i]\<close>: an index past the end reads \<open>undefined\<close>. The code compares squares with
  \<open>===\<close> only after the left operand was found truthy, where \<open>null\<close> and \<open>undefined\<close>
  behave alike (both differ from every mark), so both are \<open>None\<close>.
\<close>

definition cell_at :: "squares \<Rightarrow> nat \<Rightarrow> cell" where
  "cell_at squares i = (if i < length squares then squares ! i else None)"

text \<open>\<open>squares[i] = v\<close> on a copy: an index past the end extends the array with holes.\<close>

definition cell_assign :: "squares \<Rightarrow> nat \<Rightarrow> cell \<Rightarrow> squares" where
  "cell_assign squares i v =
     (if i < length squares then squares[i := v]
      else squares @ replicate (i - length squares) None @ [v])"

section \<open>calculateWinner\<close>

definition lines :: "(nat \<times> nat \<times> nat) list" where
  "lines =
     [(0, 1, 2),
      (3, 4, 5),
      (6, 7, 8),
      (0, 3, 6),
      (1, 4, 7),
      (2, 5, 8),
      (0, 4, 8),
      (2, 4, 6)]"

text \<open>The \<open>for\<close> loop over the line list, from the current position to the end.\<close>

fun winner_loop :: "squares \<Rightarrow> (nat \<times> nat \<times> nat) list \<Rightarrow> cell" where
  "winner_loop squares [] = None"
| "winner_loop squares ((a, b, c) # rest) =
     (if truthy (cell_at squares a)
         \<and> cell_at squares a = cell_at squares b
         \<and> cell_at squares b = cell_at squares c
      then cell_at squares a
      else winner_loop squares rest)"

definition calculateWinner :: "squares \<Rightarrow> cell" where
  "calculateWinner squares = winner_loop squares lines"

section \<open>Board.handleClick\<close>

text \<open>
  The result is the argument \<open>onPlay\<close> is called with; \<open>None\<close> is the early \<open>return\<close>,
  where \<open>onPlay\<close> is not called.
\<close>

definition handleClick :: "bool \<Rightarrow> squares \<Rightarrow> nat \<Rightarrow> squares option" where
  "handleClick xIsNext squares i =
     (if truthy (cell_at squares i) \<or> truthy (calculateWinner squares) then None
      else Some (cell_assign squares i (Some (if xIsNext then MarkX else MarkO))))"

section \<open>Game\<close>

definition Game_init :: game where
  "Game_init = \<lparr>history = [replicate 9 None], currentMove = 0\<rparr>"

text \<open>JavaScript \<open>%\<close> on integers: the remainder takes the sign of the dividend.\<close>

definition js_rem :: "int \<Rightarrow> int \<Rightarrow> int" where
  "js_rem a b = sgn a * (\<bar>a\<bar> mod \<bar>b\<bar>)"

definition xIsNext :: "game \<Rightarrow> bool" where
  "xIsNext g = (js_rem (currentMove g) 2 = 0)"

text \<open>The mark the next click writes, as \<open>handleClick\<close> chooses it from \<open>xIsNext\<close>.\<close>

definition next_player :: "int \<Rightarrow> mark" where
  "next_player c = (if js_rem c 2 = 0 then MarkX else MarkO)"

text \<open>\<open>history[currentMove]\<close>; \<open>None\<close> is \<open>undefined\<close>.\<close>

definition currentSquares :: "game \<Rightarrow> squares option" where
  "currentSquares g =
     (if 0 \<le> currentMove g \<and> currentMove g < int (length (history g))
      then Some (history g ! nat (currentMove g)) else None)"

text \<open>\<open>xs.slice(0, e)\<close>: a negative end counts from the end of the array, and the end is clamped.\<close>

definition slice0 :: "'a list \<Rightarrow> int \<Rightarrow> 'a list" where
  "slice0 xs e =
     (if e < 0 then take (nat (max (int (length xs) + e) 0)) xs
      else take (nat (min e (int (length xs)))) xs)"

definition handlePlay :: "squares \<Rightarrow> game \<Rightarrow> game" where
  "handlePlay nextSquares g =
     (let nextHistory = slice0 (history g) (currentMove g + 1) @ [nextSquares]
      in \<lparr>history = nextHistory, currentMove = int (length nextHistory) - 1\<rparr>)"

text \<open>\<open>jumpTo\<close> holds no \<open>throw\<close> and no check: every call returns normally.\<close>

definition jumpTo :: "int \<Rightarrow> game \<Rightarrow> error + game" where
  "jumpTo nextMove g = Inr (g\<lparr>currentMove := nextMove\<rparr>)"

text \<open>
  The click handler of square \<open>i\<close> as \<open>Game\<close> renders it: \<open>Board\<close> receives
  \<open>history[currentMove]\<close> and \<open>handlePlay\<close>. Reading \<open>squares[i]\<close> of \<open>undefined\<close> throws.
\<close>

definition onSquareClick :: "nat \<Rightarrow> game \<Rightarrow> error + game" where
  "onSquareClick i g =
     (case currentSquares g of
        None \<Rightarrow> Inl TypeError
      | Some squares \<Rightarrow>
          (case handleClick (xIsNext g) squares i of
             None \<Rightarrow> Inr g
           | Some nextSquares \<Rightarrow> Inr (handlePlay nextSquares g)))"

section \<open>Vocabulary of the properties\<close>

text \<open>All three squares of a line hold the mark \<open>m\<close>; a line is matched when they hold some mark.\<close>

definition line_all :: "squares \<Rightarrow> nat \<times> nat \<times> nat \<Rightarrow> mark \<Rightarrow> bool" where
  "line_all squares l m =
     (case l of (a, b, c) \<Rightarrow>
        cell_at squares a = Some m \<and> cell_at squares b = Some m \<and> cell_at squares c = Some m)"

definition line_matched :: "squares \<Rightarrow> nat \<times> nat \<times> nat \<Rightarrow> bool" where
  "line_matched squares l = (line_all squares l MarkX \<or> line_all squares l MarkO)"

text \<open>A sequence of square clicks, stopping at the first one that throws.\<close>

fun clicks :: "nat list \<Rightarrow> game \<Rightarrow> error + game" where
  "clicks [] g = Inr g"
| "clicks (i # rest) g =
     (case onSquareClick i g of Inl e \<Rightarrow> Inl e | Inr g' \<Rightarrow> clicks rest g')"

text \<open>The history after X plays 0, O plays 4, X plays 1, O plays 8, X plays 2.\<close>

definition top_row_history :: "squares list" where
  "top_row_history =
     [[None, None, None, None, None, None, None, None, None],
      [Some MarkX, None, None, None, None, None, None, None, None],
      [Some MarkX, None, None, None, Some MarkO, None, None, None, None],
      [Some MarkX, Some MarkX, None, None, Some MarkO, None, None, None, None],
      [Some MarkX, Some MarkX, None, None, Some MarkO, None, None, None, Some MarkO],
      [Some MarkX, Some MarkX, Some MarkX, None, Some MarkO, None, None, None, Some MarkO]]"

text \<open>
  The full board after X plays 0, O plays 3, X plays 1, O plays 4, X plays 5, O plays 6,
  X plays 8, O plays 7, X plays 2: the last move completes the top row and the right column.
\<close>

definition double_line_board :: squares where
  "double_line_board =
     [Some MarkX, Some MarkX, Some MarkX,
      Some MarkO, Some MarkO, Some MarkX,
      Some MarkO, Some MarkO, Some MarkX]"

text \<open>
  Boards reachable from the empty board by alternating legal moves: each move is a click
  that \<open>handleClick\<close> accepts (the square is empty and no line is complete), and the flag
  says whether X moves next. Either player may start.
\<close>

inductive legal_board :: "squares \<Rightarrow> bool \<Rightarrow> bool" where
  empty_board: "legal_board (replicate 9 None) x"
| move: "legal_board b x \<Longrightarrow> i < 9 \<Longrightarrow> handleClick x b i = Some b' \<Longrightarrow> legal_board b' (\<not> x)"

text \<open>
  States of \<open>Game\<close> reachable from the initial state by clicks on the squares 0..8 and by
  jumps to an index of the history.
\<close>

inductive reachable :: "game \<Rightarrow> bool" where
  init: "reachable Game_init"
| click: "reachable g \<Longrightarrow> i < 9 \<Longrightarrow> onSquareClick i g = Inr g' \<Longrightarrow> reachable g'"
| jump: "reachable g \<Longrightarrow> 0 \<le> k \<Longrightarrow> k < int (length (history g)) \<Longrightarrow> jumpTo k g = Inr g'
           \<Longrightarrow> reachable g'"

text \<open>The indices at which two boards differ, in increasing order.\<close>

definition differing_cells :: "squares \<Rightarrow> squares \<Rightarrow> nat list" where
  "differing_cells b b' =
     filter (\<lambda>j. cell_at b j \<noteq> cell_at b' j) [0..<max (length b) (length b')]"

text \<open>
  The invariant of the reachable states: the cursor is an index of the history, the
  history starts with the empty board, every board has 9 squares, and each entry is the
  board \<open>handleClick\<close> made from the entry before it, X moving at the even indices.
\<close>

definition history_inv :: "game \<Rightarrow> bool" where
  "history_inv g \<longleftrightarrow>
     0 \<le> currentMove g \<and> currentMove g < int (length (history g))
     \<and> history g ! 0 = replicate 9 None
     \<and> (\<forall>k < length (history g). length (history g ! k) = 9)
     \<and> (\<forall>k. Suc k < length (history g) \<longrightarrow>
           (\<exists>i < 9. handleClick (even k) (history g ! k) i = Some (history g ! Suc k)))"

section \<open>Game: the list of moves\<close>

text \<open>\<open>"..." + move\<close>: the decimal numeral of a non-negative integer.\<close>

definition digit_char :: "nat \<Rightarrow> char" where
  "digit_char d = ''0123456789'' ! d"

fun string_of_nat :: "nat \<Rightarrow> string" where
  "string_of_nat n =
     (if n < 10 then [digit_char n]
      else string_of_nat (n div 10) @ [digit_char (n mod 10)])"

declare string_of_nat.simps [simp del]

text \<open>
  What a list item holds: \<open>P text\<close> is the paragraph \<open><p>text</p>\<close>, \<open>Button text move\<close>
  the button showing \<open>text\<close> whose click calls \<open>jumpTo(move)\<close>.
\<close>

datatype element = P string | Button string nat

definition description :: "nat \<Rightarrow> string" where
  "description move =
     (if move > 0 then ''Go to Move #'' @ string_of_nat move else ''Go to Game Start'')"

text \<open>\<open>history.map((squares, move) => ...)\<close>: one \<open><li key={move}>\<close> per entry, as (key, child).\<close>

definition moves :: "game \<Rightarrow> (nat \<times> element) list" where
  "moves g =
     map (\<lambda>(move, squares).
            (move,
             if currentMove g = int move then P (''You are at move # '' @ string_of_nat move)
             else Button (description move) move))
         (enumerate 0 (history g))"

text \<open>The text an item shows.\<close>

fun label :: "element \<Rightarrow> string" where
  "label (P txt) = txt"
| "label (Button txt target) = txt"

section \<open>taskReducers (3. Managing State/taskReducers.js)\<close>

text \<open>
  A task is \<open>{id, text, done}\<close>, an action \<open>{type, id, text, task}\<close>; a field the object
  does not have reads \<open>undefined\<close>, which is \<open>None\<close>.
\<close>

record task =
  task_id :: "int option"
  task_text :: "string option"
  task_done :: bool

record action =
  action_type :: string
  action_id :: "int option"
  action_text :: "string option"
  action_task :: "task option"

text \<open>
  The \<open>switch\<close> has the four labels \<open>"add"\<close>, \<open>"remove"\<close>, \<open>"edit"\<close> and \<open>"default"\<close>
  (a string label, not the \<open>default:\<close> clause); with no label matched the function ends
  without \<open>return\<close>, which is \<open>Inr None\<close>. In the \<open>"edit"\<close> case \<open>action.task.id\<close> is read
  once per task, and throws when the action has no task.
\<close>

definition taskReducers :: "task list \<Rightarrow> action \<Rightarrow> error + task list option" where
  "taskReducers tasks action =
     (if action_type action = ''add'' then
        Inr (Some (tasks @ [\<lparr>task_id = action_id action, task_text = action_text action,
                              task_done = False\<rparr>]))
      else if action_type action = ''remove'' then
        Inr (Some (filter (\<lambda>task. task_id task \<noteq> action_id action) tasks))
      else if action_type action = ''edit'' then
        (case action_task action of
           None \<Rightarrow> if tasks = [] then Inr (Some []) else Inl TypeError
         | Some new \<Rightarrow> Inr (Some (map (\<lambda>t. if task_id t = task_id new then new else t) tasks)))
      else if action_type action = ''default'' then
        Inl (Error (''Unknown action: '' @ action_type action))
      else Inr None)"

section \<open>History: append and jump\<close>

lemma slice0_in_range:
  "0 \<le> c \<Longrightarrow> c < int (length xs) \<Longrightarrow> slice0 xs (c + 1) = take (Suc (nat c)) xs"
  by (simp add: slice0_def min_def Suc_nat_eq_nat_zadd1 add.commute)

text \<open>
  C1. For a history of length n >= 1 and a cursor c with 0 <= c <= n - 1, handlePlay(board)
  replaces the entries after index c with the single entry board: the new history has
  length c + 2, its first c + 1 entries are the old ones, its last entry is board, and
  the cursor becomes c + 1.
\<close>

theorem handlePlay_truncates_and_appends:
  assumes "1 \<le> length (history g)"
    and "0 \<le> currentMove g"
    and "currentMove g \<le> int (length (history g)) - 1"
  shows "history (handlePlay board g) = take (nat (currentMove g) + 1) (history g) @ [board]
       \<and> int (length (history (handlePlay board g))) = currentMove g + 2
       \<and> take (nat (currentMove g) + 1) (history (handlePlay board g))
           = take (nat (currentMove g) + 1) (history g)
       \<and> (\<forall>k. int k \<le> currentMove g \<longrightarrow> history (handlePlay board g) ! k = history g ! k)
       \<and> last (history (handlePlay board g)) = board
       \<and> currentMove (handlePlay board g) = currentMove g + 1"
proof -
  let ?c = "nat (currentMove g)"
  from assms have lt: "currentMove g < int (length (history g))" by simp
  have sl: "slice0 (history g) (currentMove g + 1) = take (Suc ?c) (history g)"
    using assms(2) lt by (rule slice0_in_range)
  have h: "history (handlePlay board g) = take (Suc ?c) (history g) @ [board]"
    by (simp add: handlePlay_def Let_def sl)
  have len: "length (take (Suc ?c) (history g)) = Suc ?c"
    using assms(2) lt by simp
  have nth: "\<forall>k. int k \<le> currentMove g \<longrightarrow> history (handlePlay board g) ! k = history g ! k"
  proof (intro allI impI)
    fix k assume "int k \<le> currentMove g"
    then have kc: "k < Suc ?c" by linarith
    then have "k < length (take (Suc ?c) (history g))" by (simp only: len)
    then have "(take (Suc ?c) (history g) @ [board]) ! k = take (Suc ?c) (history g) ! k"
      by (simp only: nth_append if_True)
    also have "\<dots> = history g ! k" using kc by simp
    finally show "history (handlePlay board g) ! k = history g ! k"
      by (simp only: h)
  qed
  have mn: "min (length (history g)) (Suc ?c) = Suc ?c"
    using assms(2) lt by linarith
  have cur: "currentMove (handlePlay board g) = currentMove g + 1"
    using assms(2) by (simp add: handlePlay_def Let_def sl mn)
  have l2: "int (length (history (handlePlay board g))) = currentMove g + 2"
    using assms(2) by (simp add: h mn)
  have tk: "take (nat (currentMove g) + 1) (history (handlePlay board g))
      = take (nat (currentMove g) + 1) (history g)"
    by (simp add: h mn)
  have la: "last (history (handlePlay board g)) = board"
    by (simp add: h)
  have h': "history (handlePlay board g) = take (nat (currentMove g) + 1) (history g) @ [board]"
    by (simp add: h)
  from h' l2 tk nth la cur show ?thesis by blast
qed

theorem handlePlay_truncates_and_appends_witness:
  "history (handlePlay ((replicate 9 None)[0 := Some MarkX, 8 := Some MarkO])
              \<lparr>history = take 5 top_row_history, currentMove = 1\<rparr>)
     = [top_row_history ! 0, top_row_history ! 1, (replicate 9 None)[0 := Some MarkX, 8 := Some MarkO]]
   \<and> currentMove (handlePlay ((replicate 9 None)[0 := Some MarkX, 8 := Some MarkO])
                    \<lparr>history = take 5 top_row_history, currentMove = 1\<rparr>) = 2"
  using handlePlay_truncates_and_appends
    [of "\<lparr>history = take 5 top_row_history, currentMove = 1\<rparr>"
        "(replicate 9 None)[0 := Some MarkX, 8 := Some MarkO]"]
  by (simp add: top_row_history_def)

text \<open>
  C2 (as stated: for an index outside [0, len(history) - 1], jumpTo fails with an
  out-of-range error instead of setting the cursor). The code has no range check: on the
  initial one-entry history, jumpTo(5) returns normally and the cursor is 5.
\<close>

theorem jumpTo_out_of_range_counterexample:
  "\<not> (0 \<le> (5::int) \<and> (5::int) < int (length (history Game_init)))
   \<and> jumpTo 5 Game_init = Inr \<lparr>history = [replicate 9 None], currentMove = 5\<rparr>"
  by (simp add: jumpTo_def Game_init_def)

text \<open>
  C2 (amended). For every history and every integer index outside [0, len(history) - 1],
  jumpTo(index) does not fail: it returns normally, with the cursor set to the index and
  the history as it was.
\<close>

theorem jumpTo_out_of_range_sets_cursor:
  assumes "index < 0 \<or> int (length (history g)) \<le> index"
  shows "\<exists>g'. jumpTo index g = Inr g' \<and> currentMove g' = index \<and> history g' = history g"
  by (simp add: jumpTo_def)

theorem jumpTo_out_of_range_sets_cursor_witness:
  "((-1::int) < 0 \<or> int (length (history Game_init)) \<le> -1)
   \<and> (\<exists>g'. jumpTo (-1) Game_init = Inr g' \<and> currentMove g' = -1
          \<and> history g' = history Game_init)"
  using jumpTo_out_of_range_sets_cursor [of "-1" Game_init]
  by simp

text \<open>
  What the invalid cursor leads to: \<open>history[currentMove]\<close> is \<open>undefined\<close>, and the next
  click on a square throws.
\<close>

lemma click_after_out_of_range_jump:
  assumes "index < 0 \<or> int (length (history g)) \<le> index"
    and "jumpTo index g = Inr g'"
  shows "currentSquares g' = None \<and> onSquareClick i g' = Inl TypeError"
  using assms by (auto simp: jumpTo_def currentSquares_def onSquareClick_def)

text \<open>
  C7. For every history and every in-range index k, jumpTo(k) changes only the cursor:
  the history has the same length and the same board at every index as before the call.
\<close>

theorem jumpTo_keeps_history:
  assumes "0 \<le> k" and "k < int (length (history g))"
  shows "\<exists>g'. jumpTo k g = Inr g'
           \<and> history g' = history g
           \<and> length (history g') = length (history g)
           \<and> (\<forall>j < length (history g). history g' ! j = history g ! j)
           \<and> currentMove g' = k"
  by (simp add: jumpTo_def)

theorem jumpTo_keeps_history_witness:
  "(0::int) \<le> 1 \<and> (1::int) < int (length (history \<lparr>history = take 3 top_row_history, currentMove = 2\<rparr>))
   \<and> jumpTo 1 \<lparr>history = take 3 top_row_history, currentMove = 2\<rparr>
       = Inr \<lparr>history = take 3 top_row_history, currentMove = 1\<rparr>"
  using jumpTo_keeps_history [of 1 "\<lparr>history = take 3 top_row_history, currentMove = 2\<rparr>"]
  by (simp add: jumpTo_def top_row_history_def)

section \<open>Whose turn\<close>

lemma js_rem_2_nonneg: "0 \<le> c \<Longrightarrow> (js_rem c 2 = 0) = even c"
  by (cases "c = 0") (auto simp: js_rem_def sgn_if)

text \<open>
  C5. For every cursor c >= 0 the next player is X exactly when c is even and O exactly
  when c is odd, so the mark alternates from one cursor to the next; it is a function of
  the cursor (xIsNext reads nothing else of the state).
\<close>

theorem next_player_alternates:
  assumes "0 \<le> currentMove g"
  shows "(next_player (currentMove g) = MarkX \<longleftrightarrow> even (currentMove g))
       \<and> (next_player (currentMove g) = MarkO \<longleftrightarrow> odd (currentMove g))
       \<and> next_player (currentMove g + 1) \<noteq> next_player (currentMove g)
       \<and> (xIsNext g \<longleftrightarrow> next_player (currentMove g) = MarkX)
       \<and> xIsNext (g\<lparr>history := h\<rparr>) = xIsNext g"
proof -
  have a: "(js_rem (currentMove g) 2 = 0) = even (currentMove g)"
    using assms by (rule js_rem_2_nonneg)
  have "0 \<le> currentMove g + 1" using assms by simp
  then have b: "(js_rem (currentMove g + 1) 2 = 0) = even (currentMove g + 1)"
    by (rule js_rem_2_nonneg)
  show ?thesis
    by (simp add: next_player_def xIsNext_def a b)
qed

theorem next_player_alternates_witness:
  "next_player (currentMove Game_init) = MarkX
   \<and> next_player (currentMove Game_init + 1) = MarkO
   \<and> next_player 2 = MarkX
   \<and> xIsNext Game_init"
  using next_player_alternates [of Game_init]
  by (simp add: Game_init_def next_player_def js_rem_def)

section \<open>The winner\<close>

lemma line_matched_iff: "line_matched squares l \<longleftrightarrow> (\<exists>m. line_all squares l m)"
proof
  assume "line_matched squares l"
  then show "\<exists>m. line_all squares l m" by (auto simp: line_matched_def)
next
  assume "\<exists>m. line_all squares l m"
  then obtain m where m: "line_all squares l m" ..
  then show "line_matched squares l" by (cases m) (auto simp: line_matched_def)
qed

lemma winner_loop_None_iff:
  "winner_loop squares ls = None \<longleftrightarrow> (\<forall>l \<in> set ls. \<not> line_matched squares l)"
  by (induction squares ls rule: winner_loop.induct)
     (auto simp: line_all_def line_matched_iff truthy_def)

lemma winner_loop_Some_iff:
  "winner_loop squares ls = Some m \<longleftrightarrow>
     (\<exists>i < length ls. line_all squares (ls ! i) m \<and> (\<forall>j < i. \<not> line_matched squares (ls ! j)))"
proof (induction squares ls rule: winner_loop.induct)
  case (1 squares)
  show ?case by simp
next
  case (2 squares a b c rest)
  show ?case
  proof (cases "line_matched squares (a, b, c)")
    case True
    then obtain m' where m': "line_all squares (a, b, c) m'" by (auto simp: line_matched_iff)
    then have w: "winner_loop squares ((a, b, c) # rest) = Some m'"
      by (simp add: line_all_def truthy_def)
    show ?thesis
    proof
      assume "winner_loop squares ((a, b, c) # rest) = Some m"
      with w have "m' = m" by simp
      with m' have "line_all squares (((a, b, c) # rest) ! 0) m" by simp
      then show "\<exists>i<length ((a, b, c) # rest). line_all squares (((a, b, c) # rest) ! i) m \<and>
        (\<forall>j<i. \<not> line_matched squares (((a, b, c) # rest) ! j))"
        by (intro exI[of _ 0]) simp
    next
      assume "\<exists>i<length ((a, b, c) # rest). line_all squares (((a, b, c) # rest) ! i) m \<and>
        (\<forall>j<i. \<not> line_matched squares (((a, b, c) # rest) ! j))"
      then obtain i where i: "i < length ((a, b, c) # rest)"
        "line_all squares (((a, b, c) # rest) ! i) m"
        "\<forall>j<i. \<not> line_matched squares (((a, b, c) # rest) ! j)" by blast
      have "i = 0"
      proof (rule ccontr)
        assume "i \<noteq> 0"
        then have "0 < i" by simp
        with i(3) have "\<not> line_matched squares (((a, b, c) # rest) ! 0)" by blast
        with True show False by simp
      qed
      with i(2) have "line_all squares (a, b, c) m" by simp
      with m' have "m = m'" by (simp add: line_all_def)
      with w show "winner_loop squares ((a, b, c) # rest) = Some m" by simp
    qed
  next
    case False
    then have nc: "\<not> (truthy (cell_at squares a)
        \<and> cell_at squares a = cell_at squares b
        \<and> cell_at squares b = cell_at squares c)"
      by (auto simp: line_all_def line_matched_iff truthy_def)
    then have w: "winner_loop squares ((a, b, c) # rest) = winner_loop squares rest"
      by (simp only: winner_loop.simps if_False)
    note ih = 2 [OF nc]
    have "(\<exists>i<length ((a, b, c) # rest). line_all squares (((a, b, c) # rest) ! i) m \<and>
        (\<forall>j<i. \<not> line_matched squares (((a, b, c) # rest) ! j)))
      \<longleftrightarrow> (\<exists>i<length rest. line_all squares (rest ! i) m \<and>
        (\<forall>j<i. \<not> line_matched squares (rest ! j)))" (is "?L \<longleftrightarrow> ?R")
    proof
      assume ?L
      then obtain i where i: "i < length ((a, b, c) # rest)"
        "line_all squares (((a, b, c) # rest) ! i) m"
        "\<forall>j<i. \<not> line_matched squares (((a, b, c) # rest) ! j)" by blast
      have "i \<noteq> 0"
      proof
        assume "i = 0"
        with i(2) have "line_all squares (a, b, c) m" by simp
        with False show False by (auto simp: line_matched_iff)
      qed
      then obtain k where k: "i = Suc k" by (cases i) auto
      from i k have "k < length rest" "line_all squares (rest ! k) m" by auto
      moreover have "\<forall>j<k. \<not> line_matched squares (rest ! j)"
      proof (intro allI impI)
        fix j assume "j < k"
        then have "Suc j < i" using k by simp
        with i(3) have "\<not> line_matched squares (((a, b, c) # rest) ! Suc j)" by blast
        then show "\<not> line_matched squares (rest ! j)" by simp
      qed
      ultimately show ?R by blast
    next
      assume ?R
      then obtain k where k: "k < length rest" "line_all squares (rest ! k) m"
        "\<forall>j<k. \<not> line_matched squares (rest ! j)" by blast
      have "\<forall>j<Suc k. \<not> line_matched squares (((a, b, c) # rest) ! j)"
      proof (intro allI impI)
        fix j assume j: "j < Suc k"
        show "\<not> line_matched squares (((a, b, c) # rest) ! j)"
          using j k(3) False by (cases j) auto
      qed
      with k(1,2) show ?L by (intro exI[of _ "Suc k"]) simp
    qed
    with w ih show ?thesis
      by (simp only:)
  qed
qed


lemma lines_geometry:
  "lines = map (\<lambda>r. (3 * r, 3 * r + 1, 3 * r + 2)) [0, 1, 2]
         @ map (\<lambda>c. (c, c + 3, c + 6)) [0, 1, 2]
         @ [(0, 4, 8), (2, 4, 6)]"
  by (simp add: lines_def)

text \<open>
  C3 (as stated: for every 9-cell board, calculateWinner returns a mark m if and only if
  at least one of the 8 lines holds m in its three squares). On the 9-cell board with X
  in squares 0, 1, 2 and O in squares 3, 4, 5 the line (3, 4, 5) holds O three times, yet
  the loop stops at the line (0, 1, 2) and returns X, not O.
\<close>

theorem calculateWinner_per_mark_iff_counterexample:
  "length [Some MarkX, Some MarkX, Some MarkX, Some MarkO, Some MarkO, Some MarkO, None, None, None] = 9
   \<and> (3, 4, 5) \<in> set lines
   \<and> line_all [Some MarkX, Some MarkX, Some MarkX, Some MarkO, Some MarkO, Some MarkO, None, None, None]
        (3, 4, 5) MarkO
   \<and> calculateWinner
        [Some MarkX, Some MarkX, Some MarkX, Some MarkO, Some MarkO, Some MarkO, None, None, None]
       = Some MarkX
   \<and> calculateWinner
        [Some MarkX, Some MarkX, Some MarkX, Some MarkO, Some MarkO, Some MarkO, None, None, None]
       \<noteq> Some MarkO"
  by (simp add: calculateWinner_def lines_def line_all_def cell_at_def truthy_def)

text \<open>
  C3 (amended). For every 9-cell board, calculateWinner returns a mark exactly when one
  of the 8 lines (3 rows, 3 columns, 2 diagonals) holds the same mark in its three
  squares, and null otherwise. The mark returned is the one of the first matched line in
  the order rows, columns, diagonals: it returns m if and only if the first matched line
  holds m three times, so that a returned m always has a line of three m, and, when no
  line is matched with the other mark, m is returned if and only if some line holds m
  three times.
\<close>

theorem calculateWinner_first_matching_line:
  assumes "length b = 9"
  shows "(calculateWinner b = Some m \<longleftrightarrow>
            (\<exists>i < length lines. line_all b (lines ! i) m
                \<and> (\<forall>j < i. \<not> line_matched b (lines ! j))))
       \<and> (calculateWinner b = None \<longleftrightarrow> (\<forall>l \<in> set lines. \<not> line_matched b l))
       \<and> ((\<exists>m'. calculateWinner b = Some m') \<longleftrightarrow> (\<exists>l \<in> set lines. \<exists>m'. line_all b l m'))
       \<and> (calculateWinner b = Some m \<longrightarrow> (\<exists>l \<in> set lines. line_all b l m))
       \<and> ((\<forall>l \<in> set lines. \<forall>m'. line_all b l m' \<longrightarrow> m' = m) \<longrightarrow>
            (calculateWinner b = Some m \<longleftrightarrow> (\<exists>l \<in> set lines. line_all b l m)))
       \<and> length lines = 8
       \<and> lines = map (\<lambda>r. (3 * r, 3 * r + 1, 3 * r + 2)) [0, 1, 2]
               @ map (\<lambda>c. (c, c + 3, c + 6)) [0, 1, 2]
               @ [(0, 4, 8), (2, 4, 6)]"
proof -
  have first: "calculateWinner b = Some m \<longleftrightarrow>
      (\<exists>i < length lines. line_all b (lines ! i) m
          \<and> (\<forall>j < i. \<not> line_matched b (lines ! j)))"
    unfolding calculateWinner_def by (rule winner_loop_Some_iff)
  have none: "calculateWinner b = None \<longleftrightarrow> (\<forall>l \<in> set lines. \<not> line_matched b l)"
    unfolding calculateWinner_def by (rule winner_loop_None_iff)
  have some: "calculateWinner b = Some m \<longrightarrow> (\<exists>l \<in> set lines. line_all b l m)"
    using first by (metis nth_mem)
  have uniq: "(\<forall>l \<in> set lines. \<forall>m'. line_all b l m' \<longrightarrow> m' = m) \<longrightarrow>
      (calculateWinner b = Some m \<longleftrightarrow> (\<exists>l \<in> set lines. line_all b l m))"
  proof (intro impI iffI)
    assume "calculateWinner b = Some m"
    with some show "\<exists>l \<in> set lines. line_all b l m" by blast
  next
    assume u: "\<forall>l \<in> set lines. \<forall>m'. line_all b l m' \<longrightarrow> m' = m"
      and "\<exists>l \<in> set lines. line_all b l m"
    then have "\<not> (\<forall>l \<in> set lines. \<not> line_matched b l)"
      by (auto simp: line_matched_iff)
    with none obtain m' where m': "calculateWinner b = Some m'" by auto
    then have "\<exists>i < length lines. line_all b (lines ! i) m'"
      using winner_loop_Some_iff [of b lines m'] by (auto simp: calculateWinner_def)
    then obtain l where "l \<in> set lines" "line_all b l m'" by (metis nth_mem)
    with u have "m' = m" by blast
    with m' show "calculateWinner b = Some m" by simp
  qed
  have any: "(\<exists>m'. calculateWinner b = Some m') \<longleftrightarrow> (\<exists>l \<in> set lines. \<exists>m'. line_all b l m')"
    using none by (auto simp: line_matched_iff)
  have len: "length lines = 8" by (simp add: lines_def)
  from first none any some uniq len lines_geometry show ?thesis by blast
qed

theorem calculateWinner_first_matching_line_witness:
  "length [Some MarkX, Some MarkX, Some MarkX, Some MarkO, Some MarkO, Some MarkO, None, None, None] = 9
   \<and> line_all [Some MarkX, Some MarkX, Some MarkX, Some MarkO, Some MarkO, Some MarkO, None, None, None]
        (0, 1, 2) MarkX
   \<and> line_all [Some MarkX, Some MarkX, Some MarkX, Some MarkO, Some MarkO, Some MarkO, None, None, None]
        (3, 4, 5) MarkO
   \<and> calculateWinner
        [Some MarkX, Some MarkX, Some MarkX, Some MarkO, Some MarkO, Some MarkO, None, None, None]
       = Some MarkX"
proof -
  let ?b = "[Some MarkX, Some MarkX, Some MarkX, Some MarkO, Some MarkO, Some MarkO, None, None, None]"
  have len: "length ?b = 9" by simp
  have l0: "line_all ?b (0, 1, 2) MarkX"
    by (simp add: line_all_def cell_at_def)
  have l1: "line_all ?b (3, 4, 5) MarkO"
    by (simp add: line_all_def cell_at_def)
  have "lines ! 0 = (0, 1, 2)" by (simp add: lines_def)
  with l0 have "0 < length lines \<and> line_all ?b (lines ! 0) MarkX
      \<and> (\<forall>j < 0. \<not> line_matched ?b (lines ! j))"
    by (simp add: lines_def)
  then have "\<exists>i < length lines. line_all ?b (lines ! i) MarkX
      \<and> (\<forall>j < i. \<not> line_matched ?b (lines ! j))"
    by (rule exI [of _ 0])
  with calculateWinner_first_matching_line [OF len, of MarkX]
  have "calculateWinner ?b = Some MarkX" by blast
  with len l0 l1 show ?thesis by blast
qed

section \<open>Rejected clicks\<close>

lemma top_row_game:
  "clicks [0, 4, 1, 8, 2] Game_init = Inr \<lparr>history = top_row_history, currentMove = 5\<rparr>"
  by code_simp

text \<open>
  C6. For every current board and every square i in 0..8: if square i is occupied or the
  board has a winner, the click is a silent no-op: handleClick returns before onPlay,
  nothing is thrown, and history and cursor are unchanged. After X has won with squares
  0, 1, 2 every further click is such a no-op.
\<close>

theorem handleClick_rejects_invalid_move:
  assumes "currentSquares g = Some squares"
    and "i < 9"
    and "cell_at squares i \<noteq> None \<or> calculateWinner squares \<noteq> None"
  shows "handleClick (xIsNext g) squares i = None
       \<and> onSquareClick i g = Inr g
       \<and> (\<forall>g'. onSquareClick i g = Inr g' \<longrightarrow>
             history g' = history g \<and> currentMove g' = currentMove g)"
proof -
  have h: "handleClick (xIsNext g) squares i = None"
    using assms(3) by (auto simp: handleClick_def truthy_def)
  then have "onSquareClick i g = Inr g"
    using assms(1) by (simp add: onSquareClick_def)
  with h show ?thesis by simp
qed

theorem handleClick_rejects_invalid_move_witness:
  "currentSquares \<lparr>history = top_row_history, currentMove = 5\<rparr> = Some (top_row_history ! 5)
   \<and> calculateWinner (top_row_history ! 5) = Some MarkX
   \<and> cell_at (top_row_history ! 5) 3 = None
   \<and> onSquareClick 3 \<lparr>history = top_row_history, currentMove = 5\<rparr>
       = Inr \<lparr>history = top_row_history, currentMove = 5\<rparr>"
proof -
  let ?g = "\<lparr>history = top_row_history, currentMove = 5\<rparr>"
  have cur: "currentSquares ?g = Some (top_row_history ! 5)"
    by (simp add: currentSquares_def top_row_history_def)
  have win: "calculateWinner (top_row_history ! 5) = Some MarkX"
    by (simp add: top_row_history_def calculateWinner_def lines_def cell_at_def truthy_def)
  have emp: "cell_at (top_row_history ! 5) 3 = None"
    by (simp add: top_row_history_def cell_at_def)
  have "cell_at (top_row_history ! 5) 3 \<noteq> None \<or> calculateWinner (top_row_history ! 5) \<noteq> None"
    using win by simp
  with handleClick_rejects_invalid_move [OF cur, of 3]
  have "onSquareClick 3 ?g = Inr ?g" by simp
  with cur win emp show ?thesis by blast
qed

section \<open>Legal boards have one winner\<close>

lemma cell_at_assign:
  "cell_at (cell_assign squares i v) j = (if j = i then v else cell_at squares j)"
  by (auto simp: cell_at_def cell_assign_def nth_append)

lemma calculateWinner_None_iff:
  "calculateWinner squares = None \<longleftrightarrow> (\<forall>l \<in> set lines. \<not> line_matched squares l)"
  unfolding calculateWinner_def by (rule winner_loop_None_iff)

lemma handleClick_Some:
  assumes "handleClick x b i = Some b'"
  shows "cell_at b i = None" and "calculateWinner b = None"
    and "b' = cell_assign b i (Some (if x then MarkX else MarkO))"
  using assms by (auto simp: handleClick_def truthy_def split: if_splits)

lemma line_after_move:
  assumes "\<not> line_matched b l" and "line_all (cell_assign b i (Some m)) l m'"
  shows "m' = m"
proof (rule ccontr)
  assume ne: "m' \<noteq> m"
  obtain p q r where l: "l = (p, q, r)" by (cases l) auto
  from assms(2) ne have "p \<noteq> i" "q \<noteq> i" "r \<noteq> i"
    by (auto simp: l line_all_def cell_at_assign split: if_splits)
  with assms(2) have "line_all b l m'"
    by (simp add: l line_all_def cell_at_assign)
  with assms(1) show False by (auto simp: line_matched_iff)
qed

lemma legal_board_one_winner:
  assumes "legal_board b x"
    and "l \<in> set lines" and "l' \<in> set lines"
    and "line_all b l m" and "line_all b l' m'"
  shows "m = m'"
  using assms
proof (induction rule: legal_board.induct)
  case (empty_board x)
  have "\<And>l m. l \<in> set lines \<Longrightarrow> \<not> line_all (replicate 9 None) l m"
    by (auto simp: lines_def line_all_def cell_at_def)
  with empty_board show ?case by blast
next
  case (move b x i b')
  let ?m = "if x then MarkX else MarkO"
  from handleClick_Some [OF move.hyps(3)]
  have w: "calculateWinner b = None" and b': "b' = cell_assign b i (Some ?m)" by auto
  from w have nm: "\<And>l. l \<in> set lines \<Longrightarrow> \<not> line_matched b l"
    by (simp add: calculateWinner_None_iff)
  have mover: "\<And>l m'. l \<in> set lines \<Longrightarrow> line_all b' l m' \<Longrightarrow> m' = ?m"
    using nm line_after_move unfolding b' by blast
  from mover [OF move.prems(1,3)] mover [OF move.prems(2,4)] show ?case by simp
qed

lemma winner_loop_set:
  assumes one: "\<And>l l' m m'. l \<in> set lines \<Longrightarrow> l' \<in> set lines \<Longrightarrow>
      line_all b l m \<Longrightarrow> line_all b l' m' \<Longrightarrow> m = m'"
    and "set ls = set lines"
  shows "winner_loop b ls = calculateWinner b"
proof (cases "calculateWinner b")
  case None
  then have "\<forall>l \<in> set ls. \<not> line_matched b l"
    using assms(2) by (simp add: calculateWinner_None_iff)
  then have "winner_loop b ls = None" by (simp add: winner_loop_None_iff)
  with None show ?thesis by simp
next
  case (Some m)
  then have "\<exists>i < length lines. line_all b (lines ! i) m"
    using winner_loop_Some_iff [of b lines m] by (auto simp: calculateWinner_def)
  then obtain l where l: "l \<in> set lines" "line_all b l m" by (metis nth_mem)
  then have "\<not> (\<forall>l \<in> set ls. \<not> line_matched b l)"
    using assms(2) by (auto simp: line_matched_iff)
  then have "winner_loop b ls \<noteq> None" by (simp add: winner_loop_None_iff)
  then obtain m' where m': "winner_loop b ls = Some m'" by auto
  then have "\<exists>i < length ls. line_all b (ls ! i) m'"
    using winner_loop_Some_iff [of b ls m'] by auto
  then obtain l' where "l' \<in> set ls" "line_all b l' m'" by (metis nth_mem)
  with assms(2) l have "m' = m" using one [of l' l m' m] by simp
  with m' Some show ?thesis by simp
qed

section \<open>Reachable states\<close>

lemma handlePlay_in_range:
  assumes "0 \<le> currentMove g" and "currentMove g < int (length (history g))"
  shows "history (handlePlay b g) = take (Suc (nat (currentMove g))) (history g) @ [b]"
    and "currentMove (handlePlay b g) = currentMove g + 1"
proof -
  have sl: "slice0 (history g) (currentMove g + 1) = take (Suc (nat (currentMove g))) (history g)"
    using assms by (rule slice0_in_range)
  have mn: "min (length (history g)) (Suc (nat (currentMove g))) = Suc (nat (currentMove g))"
    using assms by linarith
  show "history (handlePlay b g) = take (Suc (nat (currentMove g))) (history g) @ [b]"
    by (simp add: handlePlay_def Let_def sl)
  show "currentMove (handlePlay b g) = currentMove g + 1"
    using assms(1) by (simp add: handlePlay_def Let_def sl mn)
qed

lemma handlePlay_keeps_prefix:
  assumes "0 \<le> currentMove g" and "currentMove g < int (length (history g))"
    and "int k \<le> currentMove g"
  shows "history (handlePlay b g) ! k = history g ! k"
proof -
  let ?c = "nat (currentMove g)"
  have lt: "length (take (Suc ?c) (history g)) = Suc ?c" using assms(1,2) by simp
  from assms(3) have kc: "k < Suc ?c" by linarith
  then have "k < length (take (Suc ?c) (history g))" by (simp only: lt)
  then have "(take (Suc ?c) (history g) @ [b]) ! k = take (Suc ?c) (history g) ! k"
    by (simp only: nth_append if_True)
  also have "\<dots> = history g ! k" using kc by simp
  finally show ?thesis by (simp only: handlePlay_in_range(1) [OF assms(1,2)])
qed

lemma onSquareClick_keeps_prefix:
  assumes "0 \<le> currentMove g" and "currentMove g < int (length (history g))"
    and "onSquareClick i g = Inr g'" and "int k \<le> currentMove g"
  shows "history g' ! k = history g ! k"
proof -
  from assms(1,2) have cs: "currentSquares g = Some (history g ! nat (currentMove g))"
    by (simp add: currentSquares_def)
  show ?thesis
  proof (cases "handleClick (xIsNext g) (history g ! nat (currentMove g)) i")
    case None
    with cs assms(3) have "g' = g" by (simp add: onSquareClick_def)
    then show ?thesis by simp
  next
    case (Some ns)
    with cs assms(3) have "g' = handlePlay ns g" by (simp add: onSquareClick_def)
    with handlePlay_keeps_prefix [OF assms(1,2,4)] show ?thesis by simp
  qed
qed

lemma length_cell_assign: "i < length b \<Longrightarrow> length (cell_assign b i v) = length b"
  by (simp add: cell_assign_def)

lemma history_inv_init: "history_inv Game_init"
  by (simp add: history_inv_def Game_init_def)

lemma history_inv_jump:
  assumes "history_inv g" and "0 \<le> k" and "k < int (length (history g))"
    and "jumpTo k g = Inr g'"
  shows "history_inv g'"
proof -
  from assms(4) have "g' = g\<lparr>currentMove := k\<rparr>" by (simp add: jumpTo_def)
  with assms(1-3) show ?thesis by (simp add: history_inv_def)
qed

lemma history_inv_play:
  assumes inv: "history_inv g" and i: "i < 9"
    and hc: "handleClick (xIsNext g) (history g ! nat (currentMove g)) i = Some ns"
  shows "history_inv (handlePlay ns g)"
proof -
  let ?c = "nat (currentMove g)"
  let ?h = "history g"
  let ?h' = "history (handlePlay ns g)"
  from inv have c0: "0 \<le> currentMove g" and c1: "currentMove g < int (length ?h)"
    and h0: "?h ! 0 = replicate 9 None"
    and len: "\<And>k. k < length ?h \<Longrightarrow> length (?h ! k) = 9"
    and st: "\<And>k. Suc k < length ?h \<Longrightarrow>
          \<exists>i < 9. handleClick (even k) (?h ! k) i = Some (?h ! Suc k)"
    by (auto simp: history_inv_def)
  have cl: "?c < length ?h" using c0 c1 by linarith
  have h': "?h' = take (Suc ?c) ?h @ [ns]"
    and cm: "currentMove (handlePlay ns g) = currentMove g + 1"
    using handlePlay_in_range [OF c0 c1] by auto
  have lt: "length (take (Suc ?c) ?h) = Suc ?c" using cl by simp
  have l': "length ?h' = Suc (Suc ?c)" by (simp only: h' length_append lt) simp
  have old: "\<And>k. k \<le> ?c \<Longrightarrow> ?h' ! k = ?h ! k"
  proof -
    fix k assume "k \<le> ?c"
    then have "k < Suc ?c" by simp
    then have "k < length (take (Suc ?c) ?h)" by (simp only: lt)
    then have "?h' ! k = take (Suc ?c) ?h ! k" by (simp only: h' nth_append if_True)
    also have "\<dots> = ?h ! k" using \<open>k \<le> ?c\<close> by simp
    finally show "?h' ! k = ?h ! k" .
  qed
  have new: "?h' ! Suc ?c = ns"
    using nth_append_length [of "take (Suc ?c) ?h" ns "[]"] by (simp only: h' lt)
  have x: "xIsNext g = even ?c"
    using c0 by (simp add: xIsNext_def js_rem_2_nonneg even_nat_iff)
  have ns: "ns = cell_assign (?h ! ?c) i (Some (if xIsNext g then MarkX else MarkO))"
    using handleClick_Some(3) [OF hc] .
  have lns: "length ns = 9"
    using i len [OF cl] by (simp add: ns length_cell_assign)
  have a: "0 \<le> currentMove (handlePlay ns g)
      \<and> currentMove (handlePlay ns g) < int (length ?h')"
    using c0 by (simp add: cm l')
  have b: "?h' ! 0 = replicate 9 None" using old [of 0] h0 by simp
  have c: "\<forall>k < length ?h'. length (?h' ! k) = 9"
  proof (intro allI impI)
    fix k assume "k < length ?h'"
    then have "k \<le> ?c \<or> k = Suc ?c" using l' by linarith
    then show "length (?h' ! k) = 9"
    proof
      assume k: "k \<le> ?c"
      then have "k < length ?h" using cl by simp
      with old [OF k] len show ?thesis by simp
    next
      assume "k = Suc ?c"
      with new lns show ?thesis by simp
    qed
  qed
  have d: "\<forall>k. Suc k < length ?h' \<longrightarrow>
      (\<exists>i < 9. handleClick (even k) (?h' ! k) i = Some (?h' ! Suc k))"
  proof (intro allI impI)
    fix k assume "Suc k < length ?h'"
    then have "Suc k \<le> ?c \<or> k = ?c" using l' by linarith
    then show "\<exists>i < 9. handleClick (even k) (?h' ! k) i = Some (?h' ! Suc k)"
    proof
      assume k: "Suc k \<le> ?c"
      then have "Suc k < length ?h" using cl by simp
      from st [OF this] old [OF k] old [of k] k show ?thesis by simp
    next
      assume k: "k = ?c"
      have "handleClick (even k) (?h' ! k) i = Some (?h' ! Suc k)"
        using hc old [of ?c] new x by (simp add: k)
      with i show ?thesis by blast
    qed
  qed
  from a b c d show ?thesis unfolding history_inv_def by blast
qed

lemma history_inv_click:
  assumes "history_inv g" and "i < 9" and "onSquareClick i g = Inr g'"
  shows "history_inv g'"
proof -
  from assms(1) have cs: "currentSquares g = Some (history g ! nat (currentMove g))"
    by (simp add: history_inv_def currentSquares_def)
  show ?thesis
  proof (cases "handleClick (xIsNext g) (history g ! nat (currentMove g)) i")
    case None
    with cs assms(3) have "g' = g" by (simp add: onSquareClick_def)
    with assms(1) show ?thesis by simp
  next
    case (Some ns)
    with cs assms(3) have "g' = handlePlay ns g" by (simp add: onSquareClick_def)
    with history_inv_play [OF assms(1,2) Some] show ?thesis by simp
  qed
qed

lemma reachable_history_inv: "reachable g \<Longrightarrow> history_inv g"
proof (induction rule: reachable.induct)
  case init
  show ?case by (rule history_inv_init)
next
  case (click g i g')
  then show ?case using history_inv_click by blast
next
  case (jump g k g')
  then show ?case using history_inv_jump by blast
qed

lemma filter_eq_upt: "i < n \<Longrightarrow> filter (\<lambda>j. j = i) [0..<n] = [i]"
proof (induction n)
  case 0
  then show ?case by simp
next
  case (Suc n)
  show ?case
  proof (cases "i < n")
    case True
    with Suc.IH show ?thesis by simp
  next
    case False
    with Suc.prems have "i = n" by simp
    then have "filter (\<lambda>j. j = i) [0..<n] = []" by (auto simp: filter_empty_conv)
    with \<open>i = n\<close> show ?thesis by simp
  qed
qed

lemma differing_cells_assign:
  assumes "i < length b" and "cell_at b i \<noteq> v"
  shows "differing_cells b (cell_assign b i v) = [i]"
proof -
  have "filter (\<lambda>j. cell_at b j \<noteq> cell_at (cell_assign b i v) j) [0..<length b]
      = filter (\<lambda>j. j = i) [0..<length b]"
    using assms(2) by (intro filter_cong) (auto simp: cell_at_assign)
  then show ?thesis
    using assms(1) by (simp add: differing_cells_def length_cell_assign filter_eq_upt)
qed

text \<open>Every board the game ever stores is a legal board, X to move at the even indices.\<close>

lemma history_inv_legal_board:
  assumes "history_inv g"
  shows "k < length (history g) \<Longrightarrow> legal_board (history g ! k) (even k)"
proof (induction k)
  case 0
  from assms have "history g ! 0 = replicate 9 None" by (simp add: history_inv_def)
  then show ?case by (simp add: legal_board.empty_board)
next
  case (Suc k)
  from Suc.prems have "k < length (history g)" by simp
  then have lb: "legal_board (history g ! k) (even k)" by (rule Suc.IH)
  from assms Suc.prems obtain i where "i < 9"
    and "handleClick (even k) (history g ! k) i = Some (history g ! Suc k)"
    by (auto simp: history_inv_def)
  with lb have "legal_board (history g ! Suc k) (\<not> even k)" by (rule legal_board.move)
  then show ?case by simp
qed

lemma reachable_boards_legal:
  "reachable g \<Longrightarrow> k < length (history g) \<Longrightarrow> legal_board (history g ! k) (even k)"
  by (rule history_inv_legal_board) (rule reachable_history_inv)

lemma clicks_reachable:
  "reachable g \<Longrightarrow> \<forall>i \<in> set cells. i < 9 \<Longrightarrow> clicks cells g = Inr g' \<Longrightarrow> reachable g'"
proof (induction cells arbitrary: g)
  case Nil
  then show ?case by simp
next
  case (Cons i cells)
  from Cons.prems(3) obtain g1 where g1: "onSquareClick i g = Inr g1" "clicks cells g1 = Inr g'"
    by (auto split: sum.splits)
  from Cons.prems(1,2) g1(1) have "reachable g1" by (auto intro: reachable.click)
  with Cons.IH [of g1] Cons.prems(2) g1(2) show ?case by simp
qed

section \<open>Order of the lines\<close>

lemma double_line_game:
  "\<exists>g. clicks [0, 3, 1, 4, 5, 6, 8, 7, 2] Game_init = Inr g
       \<and> length (history g) = 10 \<and> history g ! 9 = double_line_board"
proof -
  have "case clicks [0, 3, 1, 4, 5, 6, 8, 7, 2] Game_init of
          Inl e \<Rightarrow> False
        | Inr g \<Rightarrow> length (history g) = 10 \<and> history g ! 9 = double_line_board"
    by code_simp
  then show ?thesis
    by (cases "clicks [0, 3, 1, 4, 5, 6, 8, 7, 2] Game_init") auto
qed

lemma double_line_board_legal: "legal_board double_line_board False"
proof -
  from double_line_game obtain g
    where g: "clicks [0, 3, 1, 4, 5, 6, 8, 7, 2] Game_init = Inr g"
      and len: "length (history g) = 10" and b: "history g ! 9 = double_line_board"
    by blast
  have "reachable g"
    using reachable.init _ g by (rule clicks_reachable) simp
  then have "history_inv g" by (rule reachable_history_inv)
  then have "legal_board (history g ! 9) (even (9::nat))"
    using len by (intro history_inv_legal_board) simp_all
  with b show ?thesis by simp
qed

text \<open>
  C4. For every board reachable from the empty board by alternating legal moves (each
  move fills one empty square, the players alternate, no move after a line is complete),
  the result of calculateWinner does not depend on the order in which the 8 lines are
  checked: the loop run over any permutation of the line list returns what
  calculateWinner returns, because on such a board all complete lines carry one mark.
\<close>

theorem calculateWinner_order_independent:
  assumes "legal_board b x" and "mset ls = mset lines"
  shows "winner_loop b ls = calculateWinner b
       \<and> (\<forall>l \<in> set lines. \<forall>l' \<in> set lines. \<forall>m m'.
             line_all b l m \<and> line_all b l' m' \<longrightarrow> m = m')"
proof -
  have one: "\<And>l l' m m'. l \<in> set lines \<Longrightarrow> l' \<in> set lines \<Longrightarrow>
      line_all b l m \<Longrightarrow> line_all b l' m' \<Longrightarrow> m = m'"
    using assms(1) by (rule legal_board_one_winner)
  have "set ls = set lines" using assms(2) by (rule mset_eq_setD)
  with one have "winner_loop b ls = calculateWinner b" by (rule winner_loop_set)
  with one show ?thesis by blast
qed

theorem calculateWinner_order_independent_witness:
  "legal_board double_line_board False
   \<and> mset (rev lines) = mset lines
   \<and> line_all double_line_board (0, 1, 2) MarkX
   \<and> line_all double_line_board (2, 5, 8) MarkX
   \<and> winner_loop double_line_board (rev lines) = Some MarkX
   \<and> calculateWinner double_line_board = Some MarkX"
proof -
  have p: "mset (rev lines) = mset lines" by simp
  have w: "calculateWinner double_line_board = Some MarkX"
    by (simp add: double_line_board_def calculateWinner_def lines_def cell_at_def truthy_def)
  have l1: "line_all double_line_board (0, 1, 2) MarkX"
    by (simp add: double_line_board_def line_all_def cell_at_def)
  have l2: "line_all double_line_board (2, 5, 8) MarkX"
    by (simp add: double_line_board_def line_all_def cell_at_def)
  from calculateWinner_order_independent [OF double_line_board_legal p]
  have "winner_loop double_line_board (rev lines) = calculateWinner double_line_board"
    by simp
  with w double_line_board_legal p l1 l2 show ?thesis by simp
qed

section \<open>One square per move\<close>

text \<open>
  C8. In every state reachable from the initial state (history = [empty board], cursor 0)
  by clicks on squares and in-range jumps, consecutive history entries history[k] and
  history[k+1] are 9-square boards that differ in exactly one square, which is empty in
  history[k] and holds a mark in history[k+1] (X at the even k, O at the odd k). A click
  leaves the boards stored up to the cursor as they were.
\<close>

theorem reachable_history_one_cell_steps:
  assumes "reachable g" and "Suc k < length (history g)"
  shows "length (history g ! k) = 9 \<and> length (history g ! Suc k) = 9
       \<and> (\<exists>i < 9. differing_cells (history g ! k) (history g ! Suc k) = [i]
              \<and> cell_at (history g ! k) i = None
              \<and> cell_at (history g ! Suc k) i = Some (if even k then MarkX else MarkO))
       \<and> (\<forall>c g' j. onSquareClick c g = Inr g' \<and> int j \<le> currentMove g
              \<longrightarrow> history g' ! j = history g ! j)"
proof -
  from assms(1) have inv: "history_inv g" by (rule reachable_history_inv)
  then have "0 \<le> currentMove g" and "currentMove g < int (length (history g))"
    by (simp_all add: history_inv_def)
  then have keep: "\<forall>c g' j. onSquareClick c g = Inr g' \<and> int j \<le> currentMove g
      \<longrightarrow> history g' ! j = history g ! j"
    using onSquareClick_keeps_prefix by blast
  from inv assms(2) have l1: "length (history g ! k) = 9" and l2: "length (history g ! Suc k) = 9"
    by (auto simp: history_inv_def)
  from inv assms(2) obtain i where i: "i < 9"
    and hc: "handleClick (even k) (history g ! k) i = Some (history g ! Suc k)"
    by (auto simp: history_inv_def)
  let ?m = "if even k then MarkX else MarkO"
  from handleClick_Some [OF hc]
  have e: "cell_at (history g ! k) i = None"
    and n: "history g ! Suc k = cell_assign (history g ! k) i (Some ?m)" by auto
  have "differing_cells (history g ! k) (cell_assign (history g ! k) i (Some ?m)) = [i]"
    using i l1 e by (intro differing_cells_assign) auto
  then have d: "differing_cells (history g ! k) (history g ! Suc k) = [i]"
    by (simp only: n [symmetric])
  have "cell_at (history g ! Suc k) i = Some ?m"
    by (subst n) (simp add: cell_at_assign)
  with l1 l2 i d e keep show ?thesis by blast
qed

theorem reachable_history_one_cell_steps_witness:
  "reachable \<lparr>history = [replicate 9 None, (replicate 9 None)[0 := Some MarkX],
                          (replicate 9 None)[0 := Some MarkX, 8 := Some MarkO]],
              currentMove = 2\<rparr>
   \<and> differing_cells ((replicate 9 None)[0 := Some MarkX])
        ((replicate 9 None)[0 := Some MarkX, 8 := Some MarkO]) = [8]
   \<and> (\<exists>i < 9. differing_cells ((replicate 9 None)[0 := Some MarkX])
                 ((replicate 9 None)[0 := Some MarkX, 8 := Some MarkO]) = [i]
          \<and> cell_at ((replicate 9 None)[0 := Some MarkX]) i = None
          \<and> cell_at ((replicate 9 None)[0 := Some MarkX, 8 := Some MarkO]) i = Some MarkO)"
proof -
  let ?b0 = "replicate 9 None :: squares"
  let ?b1 = "(replicate 9 None)[0 := Some MarkX]"
  let ?b2 = "(replicate 9 None)[0 := Some MarkX, 8 := Some MarkO]"
  let ?g = "\<lparr>history = [?b0, ?b1, ?b2], currentMove = 2\<rparr>"
  have c3: "clicks [0, 4, 1] Game_init = Inr \<lparr>history = take 4 top_row_history, currentMove = 3\<rparr>"
    by code_simp
  have r3: "reachable \<lparr>history = take 4 top_row_history, currentMove = 3\<rparr>"
    using reachable.init _ c3 by (rule clicks_reachable) simp
  have j: "jumpTo 1 \<lparr>history = take 4 top_row_history, currentMove = 3\<rparr>
      = Inr \<lparr>history = take 4 top_row_history, currentMove = 1\<rparr>"
    by (simp add: jumpTo_def)
  have r1: "reachable \<lparr>history = take 4 top_row_history, currentMove = 1\<rparr>"
    using r3 _ _ j by (rule reachable.jump) (simp_all add: top_row_history_def)
  have c8: "onSquareClick 8 \<lparr>history = take 4 top_row_history, currentMove = 1\<rparr> = Inr ?g"
    by code_simp
  have r: "reachable ?g"
    using r1 _ c8 by (rule reachable.click) simp
  have k: "Suc 1 < length (history ?g)" by simp
  have d: "differing_cells ?b1 ?b2 = [8]" by code_simp
  from reachable_history_one_cell_steps [OF r k]
  have "\<exists>i < 9. differing_cells ?b1 ?b2 = [i] \<and> cell_at ?b1 i = None
      \<and> cell_at ?b2 i = Some MarkO"
    by simp
  with r d show ?thesis by blast
qed

section \<open>The list of moves\<close>

lemma string_of_nat_digit: "n < 10 \<Longrightarrow> string_of_nat n = [digit_char n]"
  by (simp add: string_of_nat.simps)

lemma string_of_nat_example: "string_of_nat 12 = ''12'' \<and> string_of_nat 305 = ''305''"
  by (simp add: string_of_nat.simps digit_char_def)

text \<open>
  C9 (as stated: the label for index 0 is "Go to game start" and the label for every
  index N > 0 is "Go to move #N"). After one move, with the cursor at 1, the two items
  show "Go to Game Start" and "You are at move # 1".
\<close>

theorem moves_labels_counterexample:
  "label (snd (moves \<lparr>history = take 2 top_row_history, currentMove = 1\<rparr> ! 0)) = ''Go to Game Start''
   \<and> label (snd (moves \<lparr>history = take 2 top_row_history, currentMove = 1\<rparr> ! 0)) \<noteq> ''Go to game start''
   \<and> label (snd (moves \<lparr>history = take 2 top_row_history, currentMove = 1\<rparr> ! 1)) = ''You are at move # 1''
   \<and> label (snd (moves \<lparr>history = take 2 top_row_history, currentMove = 1\<rparr> ! 1)) \<noteq> ''Go to move #1''"
  by (simp add: moves_def description_def string_of_nat_digit digit_char_def top_row_history_def)

text \<open>
  C9 (amended). For every history of length n the list of moves has exactly n items, in
  history order, item N with key N. The item at the cursor is the text
  "You are at move # N"; every other item is a button that jumps to N, labelled
  "Go to Game Start" for N = 0 and "Go to Move #N" for N > 0.
\<close>

theorem moves_entries:
  "length (moves g) = length (history g)
   \<and> (\<forall>n < length (history g).
         fst (moves g ! n) = n
         \<and> snd (moves g ! n) =
             (if currentMove g = int n then P (''You are at move # '' @ string_of_nat n)
              else if n = 0 then Button ''Go to Game Start'' 0
              else Button (''Go to Move #'' @ string_of_nat n) n))"
  by (auto simp: moves_def description_def nth_enumerate_eq)

theorem moves_entries_witness:
  "length (moves \<lparr>history = take 3 top_row_history, currentMove = 1\<rparr>) = 3
   \<and> moves \<lparr>history = take 3 top_row_history, currentMove = 1\<rparr> ! 0
       = (0, Button ''Go to Game Start'' 0)
   \<and> moves \<lparr>history = take 3 top_row_history, currentMove = 1\<rparr> ! 1
       = (1, P ''You are at move # 1'')
   \<and> moves \<lparr>history = take 3 top_row_history, currentMove = 1\<rparr> ! 2
       = (2, Button ''Go to Move #2'' 2)"
proof -
  let ?g = "\<lparr>history = take 3 top_row_history, currentMove = 1\<rparr>"
  have d: "string_of_nat 1 = ''1''" "string_of_nat 2 = ''2''"
    by (simp_all add: string_of_nat_digit digit_char_def)
  have "length (history ?g) = 3" by (simp add: top_row_history_def)
  with moves_entries [of ?g]
  have len: "length (moves ?g) = 3"
    and e: "\<And>n. n < 3 \<Longrightarrow> moves ?g ! n =
       (n, if 1 = int n then P (''You are at move # '' @ string_of_nat n)
              else if n = 0 then Button ''Go to Game Start'' 0
              else Button (''Go to Move #'' @ string_of_nat n) n)"
    by (auto simp: prod_eq_iff)
  from len e [of 0] e [of 1] e [of 2] d show ?thesis by simp
qed

section \<open>The reducer\<close>

text \<open>
  C10. For every task list and every action whose type is none of "add", "remove",
  "edit", "default", taskReducers returns undefined: no task list and no error. Only the
  type "default" throws the 'Unknown action' error, the branch being a case label.
\<close>

theorem taskReducers_unknown_type_returns_undefined:
  "(action_type a \<notin> {''add'', ''remove'', ''edit'', ''default''} \<longrightarrow> taskReducers tasks a = Inr None)
   \<and> (action_type a = ''default'' \<longrightarrow>
          taskReducers tasks a = Inl (Error ''Unknown action: default''))
   \<and> ((\<exists>msg. taskReducers tasks a = Inl (Error msg)) \<longrightarrow> action_type a = ''default'')"
  by (auto simp: taskReducers_def split: option.splits)

theorem taskReducers_unknown_type_returns_undefined_witness:
  "''added'' \<notin> {''add'', ''remove'', ''edit'', ''default''}
   \<and> taskReducers [\<lparr>task_id = Some 0, task_text = Some ''Visit Kafka Museum'', task_done = True\<rparr>]
        \<lparr>action_type = ''added'', action_id = Some 3, action_text = Some ''x'', action_task = None\<rparr>
       = Inr None"
  using taskReducers_unknown_type_returns_undefined
    [of "\<lparr>action_type = ''added'', action_id = Some 3, action_text = Some ''x'', action_task = None\<rparr>"
        "[\<lparr>task_id = Some 0, task_text = Some ''Visit Kafka Museum'', task_done = True\<rparr>]"]
  by simp

end
